theory Spec2Isabelle
  imports Complex_Main "HOL-Library.AList"
begin

section \<open>The backoff language model of \<^verbatim>\<open>models/backoff.py\<close>\<close>

text \<open>
  A shallow embedding of the class \<^verbatim>\<open>BackoffLM\<close>.

  \<^item> A token is a Python string or \<^verbatim>\<open>None\<close>, the padding symbol of \<^verbatim>\<open>nltk.ngrams\<close>
    that \<^verbatim>\<open>__train_vocab\<close> also counts once per utterance: \<open>string option\<close>.
  \<^item> A dictionary is an association list whose keys are distinct; \<open>AList.update\<close> and
    \<open>AList.delete\<close> keep them so. \<^verbatim>\<open>self.vocab\<close> is a \<^verbatim>\<open>Counter\<close> (a missing key reads as
    0 and is not inserted), \<^verbatim>\<open>self\<close> itself is a plain \<^verbatim>\<open>dict\<close> from contexts (tuples of
    tokens) to \<^verbatim>\<open>defaultdict(float)\<close> (reading a missing key inserts 0.0).
  \<^item> Python integers are \<open>int\<close>. Python floats are modelled by the real numbers: rounding,
    overflow and infinities are outside the model.
  \<^item> \<^verbatim>\<open>exit()\<close>, a missing dictionary key and a division by zero are the values of \<open>error\<close>.
  \<^item> Logging and the progress bar do not touch the model and are left out.
\<close>

type_synonym token = "string option"
type_synonym counter = "(token \<times> int) list"
type_synonym dist = "(token \<times> real) list"
type_synonym ctx_table = "(token list \<times> dist) list"

datatype error = SystemExit | KeyError | ZeroDivisionError

record model =
  vocab :: counter
  table :: ctx_table
  oov :: string
  min_freq :: int
  ngram_size :: nat
  is_normalized :: bool

definition init :: "string \<Rightarrow> int \<Rightarrow> nat \<Rightarrow> model" where
  "init oov_tok mf n =
     \<lparr>vocab = [], table = [], oov = oov_tok, min_freq = mf, ngram_size = n,
      is_normalized = False\<rparr>"

subsection \<open>Library behaviour the class relies on\<close>

text \<open>\<^verbatim>\<open>str.split()\<close>: the maximal runs of characters other than whitespace.\<close>

definition is_space :: "char \<Rightarrow> bool" where
  "is_space c = (c \<in> set [CHR '' '', CHR 0x09, CHR 0x0A, CHR 0x0B, CHR 0x0C, CHR 0x0D])"

fun split_from :: "string \<Rightarrow> string \<Rightarrow> string list" where
  "split_from cur [] = (if cur = [] then [] else [cur])"
| "split_from cur (c # cs) =
     (if is_space c then (if cur = [] then split_from [] cs else cur # split_from [] cs)
      else split_from (cur @ [c]) cs)"

definition split :: "string \<Rightarrow> string list" where
  "split s = split_from [] s"

text \<open>
  \<^verbatim>\<open>nltk.ngrams(seq, n, pad_left=True, pad_right=True)\<close>: \<open>n - 1\<close> padding symbols
  \<^verbatim>\<open>None\<close> on each side, then every window of \<open>n\<close> consecutive items, left to right.
  For \<open>n = 0\<close> there is no padding and the windows have one item, as for \<open>n = 1\<close>.
\<close>

fun windows :: "nat \<Rightarrow> 'a list \<Rightarrow> 'a list list" where
  "windows k [] = []"
| "windows k (x # xs) =
     (if k \<le> length (x # xs) then take k (x # xs) # windows k xs else [])"

definition ngrams :: "string list \<Rightarrow> nat \<Rightarrow> token list list" where
  "ngrams text n =
     windows (max 1 n) (replicate (n - 1) None @ map Some text @ replicate (n - 1) None)"

text \<open>\<^verbatim>\<open>Counter\<close>: reading a missing key gives 0; \<^verbatim>\<open>update\<close> counts every item of a list.\<close>

definition counter_get :: "counter \<Rightarrow> token \<Rightarrow> int" where
  "counter_get c w = (case map_of c w of None \<Rightarrow> 0 | Some k \<Rightarrow> k)"

definition counter_update :: "token list \<Rightarrow> counter \<Rightarrow> counter" where
  "counter_update ws c = fold (\<lambda>w c. AList.update w (counter_get c w + 1) c) ws c"

text \<open>
  \<^verbatim>\<open>defaultdict(float)\<close>: reading a key returns its value and the dictionary, which has the
  key inserted with 0.0 when it was missing.
\<close>

definition defaultdict_get :: "dist \<Rightarrow> token \<Rightarrow> real \<times> dist" where
  "defaultdict_get d w =
     (case map_of d w of None \<Rightarrow> (0, AList.update w 0 d) | Some x \<Rightarrow> (x, d))"

text \<open>
  \<^verbatim>\<open>numpy\<close>: \<^verbatim>\<open>np.mean\<close> of an empty array is \<^verbatim>\<open>nan\<close> (with a warning, no exception) and
  \<^verbatim>\<open>np.exp2(nan)\<close> is \<^verbatim>\<open>nan\<close>; on the positive reals \<^verbatim>\<open>np.log2\<close> is the logarithm.
\<close>

datatype npfloat = NaN | Fin real

definition np_log2 :: "real \<Rightarrow> real" where
  "np_log2 x = log 2 x"

definition np_mean :: "real list \<Rightarrow> npfloat" where
  "np_mean xs = (if xs = [] then NaN else Fin (sum_list xs / real (length xs)))"

fun np_exp2 :: "npfloat \<Rightarrow> npfloat" where
  "np_exp2 NaN = NaN"
| "np_exp2 (Fin x) = Fin (2 powr x)"

text \<open>
  The order in which Python iterates over a \<^verbatim>\<open>set\<close> is not specified. It is a parameter
  \<open>rank\<close> of the model: the set's members are visited by increasing rank (Python visits
  them by hash-table slot), so that every order can be chosen.
\<close>

definition set_iter :: "(token \<Rightarrow> nat) \<Rightarrow> token list \<Rightarrow> token list" where
  "set_iter rank ws = sort_key rank (remdups ws)"

text \<open>The rank under which a set is visited in the order its members were added.\<close>

definition insertion_order :: "token \<Rightarrow> nat" where
  "insertion_order w = 0"

subsection \<open>Vocabulary\<close>

definition to_vocab :: "model \<Rightarrow> token \<Rightarrow> token" where
  "to_vocab m w = (if map_of (vocab m) w \<noteq> None then w else Some (oov m))"

definition to_vocab_tuple :: "model \<Rightarrow> token list \<Rightarrow> token list" where
  "to_vocab_tuple m ws = map (to_vocab m) ws"

definition count_utts :: "string list \<Rightarrow> counter \<Rightarrow> counter" where
  "count_utts utts c = fold (\<lambda>utt c. counter_update (None # map Some (split utt)) c) utts c"

definition oov_words :: "(token \<Rightarrow> nat) \<Rightarrow> int \<Rightarrow> counter \<Rightarrow> token list" where
  "oov_words rank mf c = set_iter rank (map fst (filter (\<lambda>(w, k). k < mf) c))"

definition fold_word :: "token \<Rightarrow> token \<Rightarrow> counter \<Rightarrow> counter" where
  "fold_word oov_tok w c =
     AList.delete w (AList.update oov_tok (counter_get c oov_tok + counter_get c w) c)"

definition train_vocab :: "(token \<Rightarrow> nat) \<Rightarrow> model \<Rightarrow> string list \<Rightarrow> model" where
  "train_vocab rank m utts =
     (let c1 = count_utts utts (vocab m);
          ws = oov_words rank (min_freq m) c1;
          c2 = AList.update (Some (oov m)) 0 c1
      in m\<lparr>vocab := fold (fold_word (Some (oov m))) ws c2\<rparr>)"

subsection \<open>Training\<close>

definition generate_ngrams :: "string \<Rightarrow> nat \<Rightarrow> token list list" where
  "generate_ngrams text max_ngram_size =
     concat (map (\<lambda>k. ngrams (split text) (k + 1)) [0..<max_ngram_size])"

definition observe :: "model \<Rightarrow> token \<Rightarrow> token list \<Rightarrow> model" where
  "observe m word context =
     (let context = to_vocab_tuple m context;
          word = to_vocab m word;
          t = (if map_of (table m) context = None then AList.update context [] (table m)
               else table m);
          d = (case map_of t context of None \<Rightarrow> [] | Some d \<Rightarrow> d);
          (x, d) = defaultdict_get d word
      in m\<lparr>table := AList.update context (AList.update word (x + 1) d) t\<rparr>)"

text \<open>
  \<^verbatim>\<open>__normalize\<close> can raise \<^verbatim>\<open>ZeroDivisionError\<close>; the error is returned with the
  dictionary as the exception leaves it. With a zero denominator the first division
  raises before any weight is written; with an empty vocabulary the weights of the context
  are rewritten and \<^verbatim>\<open>1.0 / len(self.vocab)\<close> raises. Contexts are visited in the order
  of the association list.
\<close>

definition normalize_context :: "model \<Rightarrow> dist \<Rightarrow> (error \<times> dist) + dist" where
  "normalize_context m d =
     (let count = sum_list (map snd d);
          denom = count + real (length (vocab m))
      in if d \<noteq> [] \<and> denom = 0 then Inl (ZeroDivisionError, d)
         else if length (vocab m) = 0
           then Inl (ZeroDivisionError, map (\<lambda>(w, x). (w, (x + 1) / denom)) d)
         else Inr (AList.update (Some (oov m)) (1 / real (length (vocab m)))
                     (map (\<lambda>(w, x). (w, (x + 1) / denom)) d)))"

fun normalize_table :: "model \<Rightarrow> ctx_table \<Rightarrow> (error \<times> ctx_table) + ctx_table" where
  "normalize_table m [] = Inr []"
| "normalize_table m ((context, d) # t) =
     (case normalize_context m d of
        Inl (e, d') \<Rightarrow> Inl (e, (context, d') # t)
      | Inr d' \<Rightarrow>
          (case normalize_table m t of
             Inl (e, t') \<Rightarrow> Inl (e, (context, d') # t')
           | Inr t' \<Rightarrow> Inr ((context, d') # t')))"

definition normalize_model :: "model \<Rightarrow> (error \<times> model) + model" where
  "normalize_model m =
     (case normalize_table m (table m) of
        Inl (e, t) \<Rightarrow> Inl (e, m\<lparr>table := t\<rparr>)
      | Inr t \<Rightarrow> Inr (m\<lparr>table := t, is_normalized := True\<rparr>))"

definition observe_utt :: "string \<Rightarrow> model \<Rightarrow> model" where
  "observe_utt utt m =
     fold (\<lambda>ngram m. observe m (last ngram) (butlast ngram))
       (generate_ngrams utt (ngram_size m)) m"

text \<open>
  \<^verbatim>\<open>train\<close> returns the trained model, or the exception it raises together with the
  model as the exception leaves it.
\<close>

definition train ::
  "(token \<Rightarrow> nat) \<Rightarrow> model \<Rightarrow> string list \<Rightarrow> (error \<times> model) + model" where
  "train rank m utts =
     (if is_normalized m then Inl (SystemExit, m)
      else normalize_model (fold observe_utt utts (train_vocab rank m utts)))"

subsection \<open>Queries\<close>

text \<open>
  A query returns its result, or the exception it raises, together with the model as the
  call leaves it.
\<close>

fun backoff :: "ctx_table \<Rightarrow> token list \<Rightarrow> token list" where
  "backoff t [] = []"
| "backoff t (x # context) =
     (if map_of t (x # context) = None \<and> length (x # context) > 1 then backoff t context
      else x # context)"

definition uni_p :: "model \<Rightarrow> token \<Rightarrow> error + real" where
  "uni_p m word =
     (let total = sum_list (map snd (vocab m))
      in if total = 0 then Inl ZeroDivisionError
         else Inr (real_of_int (counter_get (vocab m) word) / real_of_int total))"

definition prob :: "model \<Rightarrow> token \<Rightarrow> token list \<Rightarrow> (error + real) \<times> model" where
  "prob m word context =
     (if \<not> is_normalized m then (Inl SystemExit, m)
      else
        let context = backoff (table m) (to_vocab_tuple m context);
            word = to_vocab m word
        in case map_of (table m) context of
             None \<Rightarrow> (Inl KeyError, m)
           | Some d \<Rightarrow>
               if map_of d word \<noteq> None then
                 (let (x, d') = defaultdict_get d word
                  in (Inr x, m\<lparr>table := AList.update context d' (table m)\<rparr>))
               else (uni_p m word, m))"

fun sum_log_p :: "model \<Rightarrow> token list list \<Rightarrow> real \<Rightarrow> (error + real) \<times> model" where
  "sum_log_p m [] log_p = (Inr log_p, m)"
| "sum_log_p m (ngram # rest) log_p =
     (case prob m (last ngram) (butlast ngram) of
        (Inl e, m') \<Rightarrow> (Inl e, m')
      | (Inr p, m') \<Rightarrow> sum_log_p m' rest (log_p + np_log2 p))"

definition perplexity :: "model \<Rightarrow> string \<Rightarrow> (error + real) \<times> model" where
  "perplexity m utt =
     (let text = split utt;
          grams = ngrams text (ngram_size m)
      in case sum_log_p m (butlast grams) 0 of
           (Inl e, m') \<Rightarrow> (Inl e, m')
         | (Inr log_p, m') \<Rightarrow> (Inr (2 powr (- log_p / (real (length text) + 1))), m'))"

fun perplexities :: "model \<Rightarrow> string list \<Rightarrow> (error + real list) \<times> model" where
  "perplexities m [] = (Inr [], m)"
| "perplexities m (utt # utts) =
     (case perplexity m utt of
        (Inl e, m') \<Rightarrow> (Inl e, m')
      | (Inr p, m') \<Rightarrow>
          (case perplexities m' utts of
             (Inl e, m'') \<Rightarrow> (Inl e, m'')
           | (Inr ps, m'') \<Rightarrow> (Inr (p # ps), m'')))"

definition perplexity_multi :: "model \<Rightarrow> string list \<Rightarrow> (error + npfloat) \<times> model" where
  "perplexity_multi m utts =
     (case perplexities m utts of
        (Inl e, m') \<Rightarrow> (Inl e, m')
      | (Inr ps, m') \<Rightarrow> (Inr (np_exp2 (np_mean (map np_log2 ps))), m'))"

subsection \<open>Notions used in the statements\<close>

text \<open>The distribution that normalization leaves for a context whose counts are \<open>d\<close>.\<close>

definition norm_dist :: "model \<Rightarrow> dist \<Rightarrow> dist" where
  "norm_dist m d =
     AList.update (Some (oov m)) (1 / real (length (vocab m)))
       (map (\<lambda>(w, x). (w, (x + 1) / (sum_list (map snd d) + real (length (vocab m))))) d)"

text \<open>
  Invariants of training: vocabulary counts are not negative, and positive for every token
  but the out-of-vocabulary one; the counts of the context table are not negative; after
  normalization every context holds the out-of-vocabulary token and its weights lie in (0, 1].
\<close>

definition vocab_ok :: "token \<Rightarrow> counter \<Rightarrow> bool" where
  "vocab_ok oov_tok c = (\<forall>(w, k)\<in>set c. 0 \<le> k \<and> (w \<noteq> oov_tok \<longrightarrow> 1 \<le> k))"

definition counts_ok :: "ctx_table \<Rightarrow> bool" where
  "counts_ok t = (\<forall>(c, d)\<in>set t. \<forall>(w, x)\<in>set d. 0 \<le> x)"

definition probs_ok :: "model \<Rightarrow> bool" where
  "probs_ok m = (\<forall>c d. map_of (table m) c = Some d \<longrightarrow>
     map_of d (Some (oov m)) \<noteq> None \<and> (\<forall>w p. map_of d w = Some p \<longrightarrow> 0 < p \<and> p \<le> 1))"

section \<open>The queries do not change the model\<close>

lemma prob_state: "snd (prob m word context) = m"
  by (auto simp: prob_def Let_def defaultdict_get_def AList.update_triv split: option.splits)

lemma sum_log_p_state: "snd (sum_log_p m grams log_p) = m"
proof (induction grams arbitrary: m log_p)
  case Nil
  show ?case by simp
next
  case (Cons g grams)
  obtain r m' where p: "prob m (last g) (butlast g) = (r, m')"
    by (cases "prob m (last g) (butlast g)")
  with prob_state [of m "last g" "butlast g"] have "m' = m" by simp
  with p Cons.IH show ?case by (cases r) simp_all
qed

lemma perplexity_state: "snd (perplexity m utt) = m"
proof -
  obtain r m' where s: "sum_log_p m (butlast (ngrams (split utt) (ngram_size m))) 0 = (r, m')"
    by (cases "sum_log_p m (butlast (ngrams (split utt) (ngram_size m))) 0")
  with sum_log_p_state [of m "butlast (ngrams (split utt) (ngram_size m))" 0] have "m' = m"
    by simp
  with s show ?thesis by (cases r) (simp_all add: perplexity_def)
qed

lemma perplexities_state: "snd (perplexities m utts) = m"
proof (induction utts arbitrary: m)
  case Nil
  show ?case by simp
next
  case (Cons u utts)
  obtain r m' where p: "perplexity m u = (r, m')" by (cases "perplexity m u")
  with perplexity_state [of m u] have m': "m' = m" by simp
  obtain r2 m2 where q: "perplexities m utts = (r2, m2)" by (cases "perplexities m utts")
  with Cons.IH [of m] have "m2 = m" by simp
  with p q m' show ?case by (cases r; cases r2) simp_all
qed

lemma perplexity_multi_state: "snd (perplexity_multi m utts) = m"
proof -
  obtain r m' where p: "perplexities m utts = (r, m')" by (cases "perplexities m utts")
  with perplexities_state [of m utts] have "m' = m" by simp
  with p show ?thesis by (cases r) (simp_all add: perplexity_multi_def)
qed

text \<open>
  C9. Scoring leaves the whole model (vocabulary, context table, configuration and the
  normalized flag) as it was: the model that \<open>prob\<close> and \<open>perplexity\<close> leave behind
  is the model they were called on, whether they return or raise, and so is the model
  after any sequence of such calls. The only write a query could make is the insertion a
  \<^verbatim>\<open>defaultdict\<close> performs when a missing key is read; \<open>prob\<close> reads
  \<^verbatim>\<open>self[context][word]\<close> only after the test \<^verbatim>\<open>word in self[context]\<close>.
\<close>

theorem scoring_leaves_model_unchanged:
  "snd (prob m word context) = m \<and> snd (perplexity m utt) = m
   \<and> foldl (\<lambda>s (w, c). snd (prob s w c)) m queries = m
   \<and> foldl (\<lambda>s u. snd (perplexity s u)) m utts = m"
proof -
  have a: "foldl (\<lambda>s (w, c). snd (prob s w c)) m queries = m"
    by (induction queries) (simp_all add: prob_state split_beta)
  have b: "foldl (\<lambda>s u. snd (perplexity s u)) m utts = m"
    by (induction utts) (simp_all add: perplexity_state)
  from a b show ?thesis by (simp add: prob_state perplexity_state)
qed

section \<open>Batch perplexity\<close>

text \<open>
  C10. On an empty sequence of utterances \<open>perplexity_multi\<close> raises nothing and returns
  NaN, whatever the model: no utterance is scored, so the normalized flag is never
  looked at, and the mean of no logarithms is NaN.
\<close>

theorem perplexity_multi_empty_is_nan: "perplexity_multi m [] = (Inr NaN, m)"
  by (simp add: perplexity_multi_def np_mean_def)

section \<open>Training on an empty corpus\<close>

text \<open>
  C8, as the claim states it, fails: with the default configuration \<open>train\<close> on the empty
  corpus raises nothing and returns a normalized model whose vocabulary is the
  out-of-vocabulary token alone, with count 0.
\<close>

theorem train_empty_corpus_counterexample:
  "train insertion_order (init ''__oov__'' 2 3) [] =
     Inr \<lparr>vocab = [(Some ''__oov__'', 0)], table = [], oov = ''__oov__'', min_freq = 2,
          ngram_size = 3, is_normalized = True\<rparr>"
  by (simp add: train_def init_def train_vocab_def count_utts_def oov_words_def set_iter_def
      normalize_model_def)

text \<open>
  C8, amended. Training a fresh model on the empty corpus does not fail: for every
  configuration it completes and leaves the vocabulary \<open>{oov: 0}\<close>, an empty context table
  and the normalized flag set.
\<close>

theorem train_empty_corpus:
  "train rank (init oov_tok mf n) [] =
     Inr \<lparr>vocab = [(Some oov_tok, 0)], table = [], oov = oov_tok, min_freq = mf,
          ngram_size = n, is_normalized = True\<rparr>"
  by (simp add: train_def init_def train_vocab_def count_utts_def oov_words_def set_iter_def
      normalize_model_def)

section \<open>Backoff\<close>

lemmas eval_defs =
  train_def init_def train_vocab_def count_utts_def oov_words_def set_iter_def normalize_model_def
  counter_update_def counter_get_def fold_word_def split_def is_space_def observe_utt_def
  generate_ngrams_def ngrams_def observe_def to_vocab_def to_vocab_tuple_def
  defaultdict_get_def normalize_context_def prob_def uni_p_def insertion_order_def Let_def
  upt_rec numeral_eq_Suc

text \<open>
  C2. The query can raise. Train the default model (out-of-vocabulary token
  \<^verbatim>\<open>__oov__\<close>, minimum frequency 2, trigrams) on \<^verbatim>\<open>["a a", "a a"]\<close>: no token is rarer
  than the threshold, so nothing is folded and no context holds the out-of-vocabulary
  token. The query \<^verbatim>\<open>prob("a", ("b",))\<close> maps the context to \<^verbatim>\<open>("__oov__",)\<close>, which is
  not a key; the loop stops at length 1, and \<^verbatim>\<open>self[context]\<close> raises \<^verbatim>\<open>KeyError\<close>.
\<close>

theorem prob_raises_key_error:
  "(case train insertion_order (init ''__oov__'' 2 3) [''a a'', ''a a''] of
      Inl e \<Rightarrow> False
    | Inr m \<Rightarrow> is_normalized m \<and> fst (prob m (Some ''a'') [Some ''b'']) = Inl KeyError)"
  by (simp add: eval_defs)

section \<open>Training keeps counts non-negative and normalization yields probabilities\<close>

lemma set_update_subset: "set (AList.update k v al) \<subseteq> insert (k, v) (set al)"
  by (induction al) auto

lemma set_delete_subset: "set (AList.delete k al) \<subseteq> set al"
  by (auto simp: AList.delete_eq)

lemma counter_get_nonneg: "\<forall>(w, k)\<in>set c. 0 \<le> k \<Longrightarrow> 0 \<le> counter_get c w"
  by (auto simp: counter_get_def split: option.splits dest!: map_of_SomeD)

lemma counter_update_pos:
  "\<forall>(w, k)\<in>set c. 1 \<le> k \<Longrightarrow> \<forall>(w, k)\<in>set (counter_update ws c). 1 \<le> k"
  unfolding counter_update_def
proof (induction ws arbitrary: c)
  case Nil
  then show ?case by simp
next
  case (Cons w ws)
  from Cons.prems have "0 \<le> counter_get c w"
    by (intro counter_get_nonneg) auto
  with Cons.prems set_update_subset [of w "counter_get c w + 1" c]
  have "\<forall>(w, k)\<in>set (AList.update w (counter_get c w + 1) c). 1 \<le> k" by auto
  from Cons.IH [OF this] show ?case by simp
qed

lemma count_utts_pos:
  "\<forall>(w, k)\<in>set c. 1 \<le> k \<Longrightarrow> \<forall>(w, k)\<in>set (count_utts utts c). 1 \<le> k"
  unfolding count_utts_def
proof (induction utts arbitrary: c)
  case Nil
  then show ?case by simp
next
  case (Cons u utts)
  from counter_update_pos [OF Cons.prems, of "None # map Some (split u)"]
  have "\<forall>(w, k)\<in>set (counter_update (None # map Some (split u)) c). 1 \<le> k" .
  from Cons.IH [OF this] show ?case by simp
qed

lemma fold_word_ok: "vocab_ok o_tok c \<Longrightarrow> vocab_ok o_tok (fold_word o_tok w c)"
proof -
  assume a: "vocab_ok o_tok c"
  then have nn: "\<forall>(w, k)\<in>set c. 0 \<le> k" by (auto simp: vocab_ok_def)
  have "0 \<le> counter_get c o_tok + counter_get c w"
    using counter_get_nonneg [OF nn, of o_tok] counter_get_nonneg [OF nn, of w] by simp
  with a set_update_subset [of o_tok "counter_get c o_tok + counter_get c w" c]
    set_delete_subset [of w "AList.update o_tok (counter_get c o_tok + counter_get c w) c"]
  show ?thesis by (fastforce simp: vocab_ok_def fold_word_def)
qed

lemma fold_words_ok: "vocab_ok o_tok c \<Longrightarrow> vocab_ok o_tok (fold (fold_word o_tok) ws c)"
  by (induction ws arbitrary: c) (simp_all add: fold_word_ok)

lemma train_vocab_ok:
  "vocab_ok (Some (oov m)) (vocab (train_vocab rank (m\<lparr>vocab := []\<rparr>) utts))"
proof -
  have "\<forall>(w, k)\<in>set (count_utts utts []). 1 \<le> k" by (rule count_utts_pos) simp
  with set_update_subset [of "Some (oov m)" 0 "count_utts utts []"]
  have "vocab_ok (Some (oov m)) (AList.update (Some (oov m)) 0 (count_utts utts []))"
    by (fastforce simp: vocab_ok_def)
  then show ?thesis by (simp add: train_vocab_def Let_def fold_words_ok)
qed

lemma train_vocab_fields:
  "table (train_vocab rank m utts) = table m \<and> oov (train_vocab rank m utts) = oov m
   \<and> ngram_size (train_vocab rank m utts) = ngram_size m
   \<and> min_freq (train_vocab rank m utts) = min_freq m
   \<and> is_normalized (train_vocab rank m utts) = is_normalized m"
  by (simp add: train_vocab_def Let_def)

lemma observe_fields:
  "vocab (observe m w c) = vocab m \<and> oov (observe m w c) = oov m
   \<and> ngram_size (observe m w c) = ngram_size m \<and> min_freq (observe m w c) = min_freq m
   \<and> is_normalized (observe m w c) = is_normalized m"
  by (simp add: observe_def Let_def split_beta)

lemma counts_ok_update:
  "counts_ok t \<Longrightarrow> \<forall>(w, x)\<in>set d. 0 \<le> x \<Longrightarrow> counts_ok (AList.update c d t)"
  using set_update_subset [of c d t] by (fastforce simp: counts_ok_def)

lemma counts_ok_lookup: "counts_ok t \<Longrightarrow> map_of t c = Some d \<Longrightarrow> \<forall>(w, x)\<in>set d. 0 \<le> x"
  by (auto simp: counts_ok_def dest!: map_of_SomeD)

lemma defaultdict_get_nonneg:
  assumes "\<forall>(w, x)\<in>set d. 0 \<le> x"
  shows "0 \<le> fst (defaultdict_get d w) \<and> (\<forall>(w, x)\<in>set (snd (defaultdict_get d w)). 0 \<le> x)"
proof (cases "map_of d w")
  case None
  with assms set_update_subset [of w 0 d] show ?thesis
    by (fastforce simp: defaultdict_get_def)
next
  case (Some x)
  with assms show ?thesis by (auto simp: defaultdict_get_def dest!: map_of_SomeD)
qed

lemma observe_counts_ok: "counts_ok (table m) \<Longrightarrow> counts_ok (table (observe m w c))"
proof -
  assume a: "counts_ok (table m)"
  let ?c = "to_vocab_tuple m c" and ?w = "to_vocab m w"
  let ?t = "if map_of (table m) ?c = None then AList.update ?c [] (table m) else table m"
  let ?d = "case map_of ?t ?c of None \<Rightarrow> [] | Some d \<Rightarrow> d"
  from a have t: "counts_ok ?t" by (simp add: counts_ok_update)
  then have d: "\<forall>(w, x)\<in>set ?d. 0 \<le> x"
    by (cases "map_of ?t ?c") (auto dest: counts_ok_lookup)
  from defaultdict_get_nonneg [OF d, of ?w]
  have g: "0 \<le> fst (defaultdict_get ?d ?w)" "\<forall>(w, x)\<in>set (snd (defaultdict_get ?d ?w)). 0 \<le> x"
    by auto
  with set_update_subset [of ?w "fst (defaultdict_get ?d ?w) + 1" "snd (defaultdict_get ?d ?w)"]
  have "\<forall>(w, x)\<in>set (AList.update ?w (fst (defaultdict_get ?d ?w) + 1) (snd (defaultdict_get ?d ?w))). 0 \<le> x"
    by fastforce
  from counts_ok_update [OF t this, of ?c] show ?thesis
    by (simp add: observe_def Let_def split_beta)
qed

lemma observe_utt_inv:
  "counts_ok (table m) \<Longrightarrow> counts_ok (table (observe_utt u m)) \<and> vocab (observe_utt u m) = vocab m
     \<and> oov (observe_utt u m) = oov m \<and> ngram_size (observe_utt u m) = ngram_size m
     \<and> min_freq (observe_utt u m) = min_freq m \<and> is_normalized (observe_utt u m) = is_normalized m"
proof -
  have "counts_ok (table m) \<Longrightarrow>
     counts_ok (table (fold (\<lambda>g m. observe m (last g) (butlast g)) gs m))
     \<and> vocab (fold (\<lambda>g m. observe m (last g) (butlast g)) gs m) = vocab m
     \<and> oov (fold (\<lambda>g m. observe m (last g) (butlast g)) gs m) = oov m
     \<and> ngram_size (fold (\<lambda>g m. observe m (last g) (butlast g)) gs m) = ngram_size m
     \<and> min_freq (fold (\<lambda>g m. observe m (last g) (butlast g)) gs m) = min_freq m
     \<and> is_normalized (fold (\<lambda>g m. observe m (last g) (butlast g)) gs m) = is_normalized m" for gs
    by (induction gs arbitrary: m) (simp_all add: observe_counts_ok observe_fields)
  then show "counts_ok (table m) \<Longrightarrow> ?thesis" by (simp add: observe_utt_def)
qed

lemma observe_utts_inv:
  "counts_ok (table m) \<Longrightarrow> counts_ok (table (fold observe_utt us m)) \<and> vocab (fold observe_utt us m) = vocab m
     \<and> oov (fold observe_utt us m) = oov m \<and> ngram_size (fold observe_utt us m) = ngram_size m
     \<and> min_freq (fold observe_utt us m) = min_freq m
     \<and> is_normalized (fold observe_utt us m) = is_normalized m"
  by (induction us arbitrary: m) (simp_all add: observe_utt_inv)

lemma member_le_sum_list_real:
  "\<forall>(w, x)\<in>set d. (0::real) \<le> x \<Longrightarrow> (w, x) \<in> set d \<Longrightarrow> x \<le> sum_list (map snd d)"
proof (induction d)
  case Nil
  then show ?case by simp
next
  case (Cons a d)
  then have "0 \<le> sum_list (map snd d)" by (intro sum_list_nonneg) auto
  with Cons show ?case by (cases a) auto
qed

lemma member_le_sum_list_int:
  "\<forall>(w, k)\<in>set c. (0::int) \<le> k \<Longrightarrow> (w, k) \<in> set c \<Longrightarrow> k \<le> sum_list (map snd c)"
proof (induction c)
  case Nil
  then show ?case by simp
next
  case (Cons a c)
  then have "0 \<le> sum_list (map snd c)" by (intro sum_list_nonneg) auto
  with Cons show ?case by (cases a) auto
qed

lemma sum_list_nonneg_snd: "\<forall>(w, x)\<in>set d. (0::real) \<le> x \<Longrightarrow> 0 \<le> sum_list (map snd d)"
  by (induction d) auto

lemma normalize_context_ok:
  assumes "vocab m \<noteq> []" and "\<forall>(w, x)\<in>set d. 0 \<le> x"
  shows "normalize_context m d = Inr (norm_dist m d)"
proof -
  from assms(1) have "0 < real (length (vocab m))" by simp
  with sum_list_nonneg_snd [OF assms(2)] have "sum_list (map snd d) + real (length (vocab m)) \<noteq> 0"
    by linarith
  with assms(1) show ?thesis by (simp add: normalize_context_def norm_dist_def Let_def)
qed

lemma normalize_table_ok:
  assumes "vocab m \<noteq> []" and "\<forall>(c, d)\<in>set t. \<forall>(w, x)\<in>set d. 0 \<le> x"
  shows "normalize_table m t = Inr (map (\<lambda>(c, d). (c, norm_dist m d)) t)"
  using assms(2)
proof (induction t)
  case Nil
  show ?case by simp
next
  case (Cons a t)
  obtain c d where a: "a = (c, d)" by (cases a)
  with Cons.prems have "\<forall>(w, x)\<in>set d. 0 \<le> x" by simp
  from normalize_context_ok [OF assms(1) this] Cons a show ?case by simp
qed

lemma map_of_norm_dist:
  "map_of (norm_dist m d) w =
     (if w = Some (oov m) then Some (1 / real (length (vocab m)))
      else map_option (\<lambda>x. (x + 1) / (sum_list (map snd d) + real (length (vocab m)))) (map_of d w))"
  by (simp add: norm_dist_def AList.update_conv' map_of_map [unfolded comp_def])

lemma map_of_norm_table:
  "map_of (map (\<lambda>(c, d). (c, norm_dist m d)) t) context = map_option (norm_dist m) (map_of t context)"
  by (induction t) auto

lemma normalize_table_empty_vocab:
  "vocab m = [] \<Longrightarrow> normalize_table m t = Inr t' \<Longrightarrow> t = [] \<and> t' = []"
  by (cases t) (auto simp: normalize_context_def Let_def split: if_splits sum.splits prod.splits)

lemma norm_dist_range:
  assumes v: "vocab m \<noteq> []" and d: "\<forall>(w, x)\<in>set d. 0 \<le> x"
    and p: "map_of (norm_dist m d) w = Some p"
  shows "0 < p \<and> p \<le> 1"
proof (cases "w = Some (oov m)")
  case True
  from v have "0 < 1 / real (length (vocab m)) \<and> 1 / real (length (vocab m)) \<le> 1"
    by (cases "vocab m") (simp_all add: field_simps)
  with True p show ?thesis by (auto simp: map_of_norm_dist)
next
  case False
  with p obtain x where x: "map_of d w = Some x"
    and px: "p = (x + 1) / (sum_list (map snd d) + real (length (vocab m)))"
    by (auto simp: map_of_norm_dist)
  from x have mem: "(w, x) \<in> set d" by (rule map_of_SomeD)
  with d have x0: "0 \<le> x" by auto
  from member_le_sum_list_real [OF d mem] have xs: "x \<le> sum_list (map snd d)" .
  from v have "1 \<le> real (length (vocab m))" by (cases "vocab m") simp_all
  with x0 xs px show ?thesis by simp
qed

lemma normalize_model_ok:
  assumes n: "normalize_model m = Inr m'" and c: "counts_ok (table m)"
  shows "probs_ok m' \<and> vocab m' = vocab m \<and> oov m' = oov m \<and> ngram_size m' = ngram_size m
    \<and> min_freq m' = min_freq m \<and> is_normalized m'"
proof (cases "vocab m = []")
  case True
  from n obtain t' where t': "normalize_table m (table m) = Inr t'"
    and m': "m' = m\<lparr>table := t', is_normalized := True\<rparr>"
    by (auto simp: normalize_model_def split: sum.splits prod.splits)
  from normalize_table_empty_vocab [OF True t'] m' show ?thesis
    by (simp add: probs_ok_def)
next
  case False
  from c have c': "\<forall>(c, d)\<in>set (table m). \<forall>(w, x)\<in>set d. 0 \<le> x" by (simp add: counts_ok_def)
  from normalize_table_ok [OF False c'] n
  have m': "m' = m\<lparr>table := map (\<lambda>(c, d). (c, norm_dist m d)) (table m), is_normalized := True\<rparr>"
    by (simp add: normalize_model_def)
  have "probs_ok m'"
    unfolding probs_ok_def
  proof (intro allI impI)
    fix cx d' assume "map_of (table m') cx = Some d'"
    with m' obtain d where d: "map_of (table m) cx = Some d" and d': "d' = norm_dist m d"
      by (auto simp: map_of_norm_table)
    from counts_ok_lookup [OF c d] have dn: "\<forall>(w, x)\<in>set d. 0 \<le> x" .
    have "map_of d' (Some (oov m')) \<noteq> None" using d' m' by (simp add: map_of_norm_dist)
    moreover have "\<forall>w p. map_of d' w = Some p \<longrightarrow> 0 < p \<and> p \<le> 1"
      using norm_dist_range [OF False dn] d' by blast
    ultimately show "map_of d' (Some (oov m')) \<noteq> None \<and> (\<forall>w p. map_of d' w = Some p \<longrightarrow> 0 < p \<and> p \<le> 1)"
      by simp
  qed
  with m' show ?thesis by simp
qed

lemma uni_p_range:
  assumes v: "vocab_ok (Some (oov m)) (vocab m)" and w: "map_of (vocab m) w = Some k"
    and n: "w \<noteq> Some (oov m)"
  shows "\<exists>p. uni_p m w = Inr p \<and> 0 < p \<and> p \<le> 1"
proof -
  from w have mem: "(w, k) \<in> set (vocab m)" by (rule map_of_SomeD)
  with v n have k1: "1 \<le> k" by (auto simp: vocab_ok_def)
  from v have "\<forall>(w, k)\<in>set (vocab m). 0 \<le> k" by (auto simp: vocab_ok_def)
  from member_le_sum_list_int [OF this mem] have ks: "k \<le> sum_list (map snd (vocab m))" .
  with k1 have "real_of_int k / real_of_int (sum_list (map snd (vocab m))) \<le> 1"
    "0 < real_of_int k / real_of_int (sum_list (map snd (vocab m)))"
    by (simp_all add: field_simps)
  with k1 ks w show ?thesis by (simp add: uni_p_def counter_get_def Let_def)
qed

lemma prob_range:
  assumes v: "vocab_ok (Some (oov m)) (vocab m)" and p: "probs_ok m" and n: "is_normalized m"
  shows "fst (prob m w c) = Inl KeyError \<or> (\<exists>p. fst (prob m w c) = Inr p \<and> 0 < p \<and> p \<le> 1)"
proof (cases "map_of (table m) (backoff (table m) (to_vocab_tuple m c))")
  case None
  with n show ?thesis by (simp add: prob_def)
next
  case (Some d)
  show ?thesis
  proof (cases "map_of d (to_vocab m w)")
    case None
    from p Some have "map_of d (Some (oov m)) \<noteq> None" by (simp add: probs_ok_def)
    with None have ne: "to_vocab m w \<noteq> Some (oov m)" by auto
    then obtain k where "map_of (vocab m) (to_vocab m w) = Some k"
      by (auto simp: to_vocab_def split: if_splits)
    from uni_p_range [OF v this ne] Some None n show ?thesis by (simp add: prob_def)
  next
    case (Some x)
    with p \<open>map_of (table m) (backoff (table m) (to_vocab_tuple m c)) = Some d\<close>
    have "0 < x \<and> x \<le> 1" by (simp add: probs_ok_def)
    with Some \<open>map_of (table m) (backoff (table m) (to_vocab_tuple m c)) = Some d\<close> n
    show ?thesis by (simp add: prob_def defaultdict_get_def)
  qed
qed

lemma train_inv:
  assumes "train rank (init oov_tok mf n) utts = Inr m"
  shows "vocab_ok (Some (oov m)) (vocab m) \<and> probs_ok m \<and> is_normalized m
    \<and> oov m = oov_tok \<and> min_freq m = mf \<and> ngram_size m = n"
proof -
  let ?m1 = "train_vocab rank (init oov_tok mf n) utts"
  let ?m2 = "fold observe_utt utts ?m1"
  from assms have nm: "normalize_model ?m2 = Inr m" by (simp add: train_def init_def)
  have "init oov_tok mf n = (init oov_tok mf n)\<lparr>vocab := []\<rparr>" by (simp add: init_def)
  with train_vocab_ok [of "init oov_tok mf n" rank utts]
  have v1: "vocab_ok (Some oov_tok) (vocab ?m1)" by (simp add: init_def)
  have "counts_ok (table ?m1)" by (simp add: train_vocab_fields init_def counts_ok_def)
  from observe_utts_inv [OF this, of utts]
  have i2: "counts_ok (table ?m2)" "vocab ?m2 = vocab ?m1" "oov ?m2 = oov_tok"
    "ngram_size ?m2 = n" "min_freq ?m2 = mf"
    by (simp_all add: train_vocab_fields init_def)
  from normalize_model_ok [OF nm i2(1)] i2 v1 show ?thesis by simp
qed

lemma prob_key_error_iff:
  "is_normalized m \<Longrightarrow> probs_ok m \<Longrightarrow> vocab_ok (Some (oov m)) (vocab m) \<Longrightarrow>
   (fst (prob m w c) = Inl KeyError) =
     (map_of (table m) (backoff (table m) (to_vocab_tuple m c)) = None)"
proof -
  assume n: "is_normalized m" and p: "probs_ok m" and v: "vocab_ok (Some (oov m)) (vocab m)"
  show ?thesis
  proof (cases "map_of (table m) (backoff (table m) (to_vocab_tuple m c))")
    case None
    with n show ?thesis by (simp add: prob_def)
  next
    case (Some d)
    show ?thesis
    proof (cases "map_of d (to_vocab m w)")
      case None
      from p Some have "map_of d (Some (oov m)) \<noteq> None" by (simp add: probs_ok_def)
      with None have ne: "to_vocab m w \<noteq> Some (oov m)" by auto
      then obtain k where "map_of (vocab m) (to_vocab m w) = Some k"
        by (auto simp: to_vocab_def split: if_splits)
      from uni_p_range [OF v this ne] Some None n show ?thesis by (auto simp: prob_def)
    next
      case (Some x)
      with \<open>map_of (table m) (backoff (table m) (to_vocab_tuple m c)) = Some d\<close> n
      show ?thesis by (simp add: prob_def defaultdict_get_def)
    qed
  qed
qed

lemma prob_fallback:
  assumes v: "vocab_ok (Some (oov m)) (vocab m)" and p: "probs_ok m" and n: "is_normalized m"
    and d: "map_of (table m) (backoff (table m) (to_vocab_tuple m c)) = Some d"
    and w: "map_of d (to_vocab m w) = None"
  shows "\<exists>p. uni_p m (to_vocab m w) = Inr p \<and> fst (prob m w c) = Inr p \<and> 0 < p \<and> p \<le> 1"
proof -
  from p d have "map_of d (Some (oov m)) \<noteq> None" by (simp add: probs_ok_def)
  with w have ne: "to_vocab m w \<noteq> Some (oov m)" by auto
  then obtain k where "map_of (vocab m) (to_vocab m w) = Some k"
    by (auto simp: to_vocab_def split: if_splits)
  from uni_p_range [OF v this ne] d w n show ?thesis by (auto simp: prob_def)
qed

text \<open>
  Range of the probability query. For every model that training a fresh model returns, and
  every word and context, the
  probability query returns a value in (0, 1] unless it raises \<^verbatim>\<open>KeyError\<close>, which it does
  exactly when the context left by the backoff loop is not a key of the context table.
  In particular, whenever the query falls back to the unigram probability (the context is
  known, the mapped word is not among its next tokens), that probability is defined: the sum
  of the vocabulary counts is not zero, and the value lies in (0, 1].
\<close>

theorem prob_in_unit_interval:
  assumes "train rank (init oov_tok mf n) utts = Inr m"
  shows "(fst (prob m word context) = Inl KeyError
            \<or> (\<exists>p. fst (prob m word context) = Inr p \<and> 0 < p \<and> p \<le> 1))
     \<and> ((fst (prob m word context) = Inl KeyError) =
          (map_of (table m) (backoff (table m) (to_vocab_tuple m context)) = None))
     \<and> (\<forall>d. map_of (table m) (backoff (table m) (to_vocab_tuple m context)) = Some d
              \<and> map_of d (to_vocab m word) = None \<longrightarrow>
            (\<exists>p. uni_p m (to_vocab m word) = Inr p \<and> fst (prob m word context) = Inr p
                 \<and> 0 < p \<and> p \<le> 1))"
proof -
  from train_inv [OF assms]
  have i: "vocab_ok (Some (oov m)) (vocab m)" "probs_ok m" "is_normalized m" by blast+
  from prob_range [OF i] prob_key_error_iff [OF i(3) i(2) i(1)] prob_fallback [OF i]
  show ?thesis by blast
qed

lemma sum_log_p_range:
  assumes v: "vocab_ok (Some (oov m)) (vocab m)" and p: "probs_ok m" and n: "is_normalized m"
  shows "fst (sum_log_p m gs acc) = Inl KeyError
     \<or> (\<exists>ps. map (\<lambda>g. fst (prob m (last g) (butlast g))) gs = map Inr ps
           \<and> (\<forall>p\<in>set ps. 0 < p \<and> p \<le> 1)
           \<and> fst (sum_log_p m gs acc) = Inr (acc + sum_list (map np_log2 ps)))"
proof (induction gs arbitrary: acc)
  case Nil
  show ?case by simp
next
  case (Cons g gs)
  obtain r m' where pr: "prob m (last g) (butlast g) = (r, m')"
    by (cases "prob m (last g) (butlast g)")
  with prob_state [of m "last g" "butlast g"] have m': "m' = m" by simp
  from prob_range [OF v p n, of "last g" "butlast g"] pr
  consider "r = Inl KeyError" | q where "r = Inr q" "0 < q" "q \<le> 1" by auto
  then show ?case
  proof cases
    case 1
    with pr show ?thesis by simp
  next
    case 2
    from Cons.IH [of "acc + np_log2 q"]
    show ?thesis
    proof
      assume "fst (sum_log_p m gs (acc + np_log2 q)) = Inl KeyError"
      with pr 2 m' show ?thesis by simp
    next
      assume "\<exists>ps. map (\<lambda>g. fst (prob m (last g) (butlast g))) gs = map Inr ps
           \<and> (\<forall>p\<in>set ps. 0 < p \<and> p \<le> 1)
           \<and> fst (sum_log_p m gs (acc + np_log2 q)) = Inr (acc + np_log2 q + sum_list (map np_log2 ps))"
      then obtain ps where ps: "map (\<lambda>g. fst (prob m (last g) (butlast g))) gs = map Inr ps"
        "\<forall>p\<in>set ps. 0 < p \<and> p \<le> 1"
        "fst (sum_log_p m gs (acc + np_log2 q)) = Inr (acc + np_log2 q + sum_list (map np_log2 ps))"
        by blast
      with pr 2 m' have "map (\<lambda>g. fst (prob m (last g) (butlast g))) (g # gs) = map Inr (q # ps)
           \<and> (\<forall>p\<in>set (q # ps). 0 < p \<and> p \<le> 1)
           \<and> fst (sum_log_p m (g # gs) acc) = Inr (acc + sum_list (map np_log2 (q # ps)))"
        by (simp add: add.assoc)
      then show ?thesis by blast
    qed
  qed
qed

lemma sum_log2_nonpos: "\<forall>p\<in>set ps. 0 < p \<and> p \<le> (1::real) \<Longrightarrow> sum_list (map np_log2 ps) \<le> 0"
  by (induction ps) (auto simp: np_log2_def intro: add_nonpos_nonpos)

text \<open>
  Lower bound of the perplexity. For every model that training a fresh model returns and
  every utterance, the perplexity is at least 1: unless a probability query raises \<^verbatim>\<open>KeyError\<close>, every n-gram
  of the configured order but the last has a probability \<open>p\<close>, and the result is 2 to the
  power of minus the sum of the \<open>log2 p\<close>, divided by the number of tokens plus one.
\<close>

theorem perplexity_at_least_one:
  assumes "train rank (init oov_tok mf n) utts = Inr m"
  shows "fst (perplexity m utt) = Inl KeyError
     \<or> (\<exists>ps v. map (\<lambda>g. fst (prob m (last g) (butlast g))) (butlast (ngrams (split utt) n)) = map Inr ps
           \<and> v = 2 powr (- sum_list (map (log 2) ps) / (real (length (split utt)) + 1))
           \<and> fst (perplexity m utt) = Inr v \<and> 1 \<le> v)"
proof -
  from train_inv [OF assms]
  have i: "vocab_ok (Some (oov m)) (vocab m)" "probs_ok m" "is_normalized m"
    and sz: "ngram_size m = n" by blast+
  let ?gs = "butlast (ngrams (split utt) n)"
  obtain r m' where s: "sum_log_p m ?gs 0 = (r, m')" by (cases "sum_log_p m ?gs 0")
  from sum_log_p_range [OF i, of ?gs 0] s
  consider "r = Inl KeyError"
    | ps where "map (\<lambda>g. fst (prob m (last g) (butlast g))) ?gs = map Inr ps"
        "\<forall>p\<in>set ps. 0 < p \<and> p \<le> 1" "r = Inr (sum_list (map np_log2 ps))"
    by auto
  then show ?thesis
  proof cases
    case 1
    with s sz show ?thesis by (simp add: perplexity_def)
  next
    case 2
    from sum_log2_nonpos [OF 2(2)] have "0 \<le> - sum_list (map np_log2 ps) / (real (length (split utt)) + 1)"
      by (simp add: field_simps)
    then have "1 \<le> (2::real) powr (- sum_list (map np_log2 ps) / (real (length (split utt)) + 1))"
      by (intro ge_one_powr_ge_zero) simp_all
    moreover have "np_log2 = log 2" by (rule ext) (simp add: np_log2_def)
    ultimately show ?thesis using 2 s sz by (simp add: perplexity_def)
  qed
qed

section \<open>Normalization\<close>

text \<open>
  C1. Let the vocabulary be non-empty and the weights of the context table be raw counts
  (not negative). Then normalization succeeds, and for every context of the table, with
  \<open>total\<close> the sum of its counts and \<open>V\<close> the number of vocabulary entries, every observed
  next token of count \<open>c\<close> other than the out-of-vocabulary token gets the weight
  \<open>(c + 1) / (total + V)\<close>, the out-of-vocabulary token gets exactly \<open>1 / V\<close> whatever its
  count was, and no other next token appears.
\<close>

theorem normalize_spec:
  assumes "vocab m \<noteq> []"
    and "\<forall>(c, d)\<in>set (table m). \<forall>(w, x)\<in>set d. 0 \<le> x"
    and "map_of (table m) context = Some d"
  shows "\<exists>m' d'. normalize_model m = Inr m' \<and> is_normalized m' \<and> map_of (table m') context = Some d'
    \<and> map_of d' (Some (oov m)) = Some (1 / real (length (vocab m)))
    \<and> (\<forall>w c. w \<noteq> Some (oov m) \<longrightarrow> map_of d w = Some c \<longrightarrow>
          map_of d' w = Some ((c + 1) / (sum_list (map snd d) + real (length (vocab m)))))
    \<and> (\<forall>w. w \<noteq> Some (oov m) \<longrightarrow> map_of d w = None \<longrightarrow> map_of d' w = None)"
proof (intro exI conjI allI impI)
  let ?t = "map (\<lambda>(c, d). (c, norm_dist m d)) (table m)"
  from normalize_table_ok [OF assms(1,2)]
  show "normalize_model m = Inr (m\<lparr>table := ?t, is_normalized := True\<rparr>)"
    by (simp add: normalize_model_def)
  show "is_normalized (m\<lparr>table := ?t, is_normalized := True\<rparr>)" by simp
  from assms(3) show "map_of (table (m\<lparr>table := ?t, is_normalized := True\<rparr>)) context = Some (norm_dist m d)"
    by (simp add: map_of_norm_table)
  show "map_of (norm_dist m d) (Some (oov m)) = Some (1 / real (length (vocab m)))"
    by (simp add: map_of_norm_dist)
next
  fix w c assume "w \<noteq> Some (oov m)" "map_of d w = Some c"
  then show "map_of (norm_dist m d) w = Some ((c + 1) / (sum_list (map snd d) + real (length (vocab m))))"
    by (simp add: map_of_norm_dist)
next
  fix w assume "w \<noteq> Some (oov m)" "map_of d w = None"
  then show "map_of (norm_dist m d) w = None"
    by (simp add: map_of_norm_dist)
qed

text \<open>
  The theorem at a state with three vocabulary entries and one context whose counts are 4
  for \<^verbatim>\<open>a\<close> and 2 for the out-of-vocabulary token: the weights become 5/9 and 1/3.
\<close>

theorem normalize_spec_witness:
  "\<exists>m' d'. normalize_model
       \<lparr>vocab = [(None, 2), (Some ''a'', 4), (Some ''__oov__'', 0)],
        table = [([], [(Some ''a'', 4), (Some ''__oov__'', 2)])], oov = ''__oov__'', min_freq = 2,
        ngram_size = 1, is_normalized = False\<rparr> = Inr m'
     \<and> map_of (table m') [] = Some d'
     \<and> map_of d' (Some ''__oov__'') = Some (1 / 3)
     \<and> map_of d' (Some ''a'') = Some (5 / 9)"
proof -
  let ?m = "\<lparr>vocab = [(None, 2), (Some ''a'', 4), (Some ''__oov__'', 0)],
        table = [([], [(Some ''a'', 4), (Some ''__oov__'', 2)])], oov = ''__oov__'', min_freq = 2,
        ngram_size = 1, is_normalized = False\<rparr>"
  have h1: "vocab ?m \<noteq> []" by simp
  have h2: "\<forall>(c, d)\<in>set (table ?m). \<forall>(w, x)\<in>set d. 0 \<le> x" by simp
  have h3: "map_of (table ?m) [] = Some [(Some ''a'', 4), (Some ''__oov__'', 2)]" by simp
  from normalize_spec [OF h1 h2 h3]
  obtain m' d' where n: "normalize_model ?m = Inr m'" "map_of (table m') [] = Some d'"
    "map_of d' (Some (oov ?m)) = Some (1 / real (length (vocab ?m)))"
    "\<forall>w c. w \<noteq> Some (oov ?m) \<longrightarrow> map_of [(Some ''a'', 4), (Some ''__oov__'', 2)] w = Some c \<longrightarrow>
          map_of d' w = Some ((c + 1) / (sum_list (map snd [(Some ''a'', 4::real), (Some ''__oov__'', 2)]) + real (length (vocab ?m))))"
    by blast
  from n(4) have "map_of d' (Some ''a'') = Some ((4 + 1) / (sum_list (map snd [(Some ''a'', 4::real), (Some ''__oov__'', 2)]) + real (length (vocab ?m))))"
    by simp
  then have "map_of d' (Some ''a'') = Some (5 / 9)" by simp
  with n(1,2,3) show ?thesis by simp
qed

section \<open>The normalized flag\<close>

lemma length_windows: "0 < k \<Longrightarrow> length (windows k xs) = Suc (length xs) - k"
  by (induction xs) auto

lemma length_ngrams: "length (ngrams text n) = length text + (n - 1)"
  by (cases n) (simp_all add: ngrams_def length_windows)

lemma sum_log_p_exit:
  "\<not> is_normalized m \<Longrightarrow> grams \<noteq> [] \<Longrightarrow> sum_log_p m grams log_p = (Inl SystemExit, m)"
  by (cases grams) (simp_all add: prob_def)

text \<open>
  C5, amended. \<open>train\<close> on a normalized model exits and leaves the model as it was;
  \<open>prob\<close> on a model that is not normalized exits and leaves the model as it was;
  \<open>perplexity\<close> on a model that is not normalized does the same whenever it scores at
  least one n-gram, that is whenever the number of tokens of the utterance plus the n-gram
  order is at least 3. (\<^verbatim>\<open>exit()\<close> is the rejection; in each case the second component
  is the model after the call.)
\<close>

theorem state_machine:
  "(is_normalized m \<longrightarrow> train rank m utts = Inl (SystemExit, m))
   \<and> (\<not> is_normalized m \<longrightarrow> prob m word context = (Inl SystemExit, m))
   \<and> (\<not> is_normalized m \<and> 2 \<le> length (split utt) + (ngram_size m - 1)
        \<longrightarrow> perplexity m utt = (Inl SystemExit, m))"
proof (intro conjI impI)
  assume "is_normalized m"
  then show "train rank m utts = Inl (SystemExit, m)" by (simp add: train_def)
next
  assume "\<not> is_normalized m"
  then show "prob m word context = (Inl SystemExit, m)" by (simp add: prob_def)
next
  assume a: "\<not> is_normalized m \<and> 2 \<le> length (split utt) + (ngram_size m - 1)"
  then have "2 \<le> length (ngrams (split utt) (ngram_size m))" by (simp add: length_ngrams)
  then have "length (butlast (ngrams (split utt) (ngram_size m))) \<noteq> 0" by simp
  then have "butlast (ngrams (split utt) (ngram_size m)) \<noteq> []" by (simp only: length_0_conv not_False_eq_True)
  with a show "perplexity m utt = (Inl SystemExit, m)"
    by (simp add: perplexity_def sum_log_p_exit)
qed

text \<open>The three rejections at concrete calls on the default model.\<close>

theorem state_machine_witness:
  "is_normalized ((init ''__oov__'' 2 3)\<lparr>is_normalized := True\<rparr>)
   \<and> train insertion_order ((init ''__oov__'' 2 3)\<lparr>is_normalized := True\<rparr>) [''a b'']
       = Inl (SystemExit, (init ''__oov__'' 2 3)\<lparr>is_normalized := True\<rparr>)
   \<and> \<not> is_normalized (init ''__oov__'' 2 3)
   \<and> prob (init ''__oov__'' 2 3) (Some ''b'') [None, Some ''a''] = (Inl SystemExit, init ''__oov__'' 2 3)
   \<and> 2 \<le> length (split ''a b'') + (ngram_size (init ''__oov__'' 2 3) - 1)
   \<and> perplexity (init ''__oov__'' 2 3) ''a b'' = (Inl SystemExit, init ''__oov__'' 2 3)"
proof -
  have n: "is_normalized ((init ''__oov__'' 2 3)\<lparr>is_normalized := True\<rparr>)" by simp
  have u: "\<not> is_normalized (init ''__oov__'' 2 3)" by (simp add: init_def)
  have l: "2 \<le> length (split ''a b'') + (ngram_size (init ''__oov__'' 2 3) - 1)"
    by (simp add: init_def split_def is_space_def)
  from n u l
    state_machine [of "(init ''__oov__'' 2 3)\<lparr>is_normalized := True\<rparr>" insertion_order "[''a b'']"]
    state_machine [of "init ''__oov__'' 2 3" _ _ "Some ''b''" "[None, Some ''a'']" "''a b''"]
  show ?thesis by blast
qed

text \<open>
  C5, as the claim states it, fails: \<open>perplexity\<close> has no check of its own. A fresh
  unigram model that was never trained or normalized gives the one-word utterance
  \<^verbatim>\<open>hello\<close> the perplexity 1.0: the only n-gram is dropped, so \<open>prob\<close> is never called.
\<close>

theorem perplexity_before_normalization_counterexample:
  "\<not> is_normalized (init ''__oov__'' 2 1)
   \<and> perplexity (init ''__oov__'' 2 1) ''hello'' = (Inr 1, init ''__oov__'' 2 1)"
  by (simp add: init_def perplexity_def ngrams_def split_def is_space_def)

section \<open>Concrete runs of the range theorems\<close>

text \<open>
  The model trained on \<^verbatim>\<open>["a a", "a a"]\<close> with bigrams gives \<^verbatim>\<open>a\<close> after \<^verbatim>\<open>a\<close> the
  probability 3/7.
\<close>

theorem prob_in_unit_interval_witness:
  "\<exists>m p. train insertion_order (init ''__oov__'' 2 2) [''a a'', ''a a''] = Inr m
     \<and> fst (prob m (Some ''a'') [Some ''a'']) = Inr p \<and> p = 3 / 7 \<and> 0 < p \<and> p \<le> 1"
proof -
  have "\<exists>m. train insertion_order (init ''__oov__'' 2 2) [''a a'', ''a a''] = Inr m
     \<and> fst (prob m (Some ''a'') [Some ''a'']) = Inr (3 / 7)"
    by (simp add: eval_defs)
  then obtain m where t: "train insertion_order (init ''__oov__'' 2 2) [''a a'', ''a a''] = Inr m"
    and e: "fst (prob m (Some ''a'') [Some ''a'']) = Inr (3 / 7)" by blast
  from prob_in_unit_interval [OF t, of "Some ''a''" "[Some ''a'']"] e
  have "0 < (3 / 7 :: real) \<and> (3 / 7 :: real) \<le> 1" by auto
  with t e show ?thesis by blast
qed

text \<open>The same model scores the utterance \<^verbatim>\<open>a a\<close> with a perplexity of at least 1.\<close>

theorem perplexity_at_least_one_witness:
  "\<exists>m v. train insertion_order (init ''__oov__'' 2 2) [''a a'', ''a a''] = Inr m
     \<and> fst (perplexity m ''a a'') = Inr v \<and> 1 \<le> v"
proof -
  have "\<exists>m. train insertion_order (init ''__oov__'' 2 2) [''a a'', ''a a''] = Inr m
     \<and> fst (perplexity m ''a a'') \<noteq> Inl KeyError"
    by (simp add: eval_defs perplexity_def)
  then obtain m where t: "train insertion_order (init ''__oov__'' 2 2) [''a a'', ''a a''] = Inr m"
    and e: "fst (perplexity m ''a a'') \<noteq> Inl KeyError" by blast
  from perplexity_at_least_one [OF t, of "''a a''"] e
  obtain v where "fst (perplexity m ''a a'') = Inr v" "1 \<le> v" by blast
  with t show ?thesis by blast
qed

section \<open>Vocabulary construction\<close>

lemma distinct_counter_update:
  "distinct (map fst c) \<Longrightarrow> distinct (map fst (counter_update ws c))"
  unfolding counter_update_def
  by (induction ws arbitrary: c) (simp_all add: AList.distinct_update)

lemma distinct_count_utts:
  "distinct (map fst c) \<Longrightarrow> distinct (map fst (count_utts utts c))"
  unfolding count_utts_def
  by (induction utts arbitrary: c) (simp_all add: distinct_counter_update)

lemma map_of_fold_word:
  "w \<noteq> o_tok \<Longrightarrow> map_of (fold_word o_tok w c) =
     ((map_of c)(o_tok \<mapsto> counter_get c o_tok + counter_get c w))(w := None)"
  by (simp add: fold_word_def AList.delete_conv' AList.update_conv')

lemma counter_get_fold_word:
  "w \<noteq> o_tok \<Longrightarrow> counter_get (fold_word o_tok w c) x =
     (if x = w then 0 else if x = o_tok then counter_get c o_tok + counter_get c w
      else counter_get c x)"
  by (simp add: counter_get_def map_of_fold_word)

lemma fold_words_map_of:
  assumes "distinct ws" and "o_tok \<notin> set ws" and "map_of c o_tok \<noteq> None"
  shows "map_of (fold (fold_word o_tok) ws c) x =
     (if x = o_tok then Some (counter_get c o_tok + sum_list (map (counter_get c) ws))
      else if x \<in> set ws then None else map_of c x)"
  using assms
proof (induction ws arbitrary: c)
  case Nil
  then show ?case by (auto simp: counter_get_def)
next
  case (Cons w ws)
  let ?c = "fold_word o_tok w c"
  from Cons.prems have w: "w \<noteq> o_tok" "w \<notin> set ws" "distinct ws" "o_tok \<notin> set ws" by auto
  have o: "map_of ?c o_tok \<noteq> None" using w(1) by (simp add: map_of_fold_word)
  have eq: "map (counter_get ?c) ws = map (counter_get c) ws"
  proof (rule map_cong [OF refl])
    fix y assume "y \<in> set ws"
    with w show "counter_get ?c y = counter_get c y"
      by (auto simp: counter_get_fold_word)
  qed
  from Cons.IH [OF w(3) w(4) o, unfolded eq]
  have "map_of (fold (fold_word o_tok) ws ?c) x =
     (if x = o_tok then Some (counter_get ?c o_tok + sum_list (map (counter_get c) ws))
      else if x \<in> set ws then None else map_of ?c x)" .
  with w show ?case
    by (auto simp: counter_get_fold_word map_of_fold_word)
qed

lemma set_iter_props: "distinct (set_iter rank ws) \<and> set (set_iter rank ws) = set ws"
  by (simp add: set_iter_def)

lemma sum_list_set_iter:
  "distinct ws \<Longrightarrow> sum_list (map f (set_iter rank ws)) = sum_list (map (f :: token \<Rightarrow> int) ws)"
  using set_iter_props [of rank ws]
  by (simp add: sum_list_distinct_conv_sum_set)

lemma counter_get_member:
  "distinct (map fst c) \<Longrightarrow> e \<in> set c \<Longrightarrow> counter_get c (fst e) = snd e"
  by (cases e) (simp add: counter_get_def)

lemma sum_counts_filter:
  assumes "distinct (map fst c)"
  shows "sum_list (map (counter_get c) (map fst (filter P c))) = sum_list (map snd (filter P c))"
proof -
  have "map (counter_get c) (map fst (filter P c)) = map (\<lambda>e. counter_get c (fst e)) (filter P c)"
    by (simp add: comp_def)
  also have "\<dots> = map snd (filter P c)"
  proof (rule map_cong [OF refl])
    fix e assume "e \<in> set (filter P c)"
    then have "e \<in> set c" by simp
    from counter_get_member [OF assms this] show "counter_get c (fst e) = snd e" .
  qed
  finally show ?thesis by (rule arg_cong)
qed

lemma counter_get_update_other:
  "x \<noteq> k \<Longrightarrow> counter_get (AList.update k v c) x = counter_get c x"
  by (simp add: counter_get_def AList.update_conv')

lemma map_of_fold_word_other:
  "x \<noteq> o_tok \<Longrightarrow> map_of (fold_word o_tok w c) x = (if x = w then None else map_of c x)"
  by (simp add: fold_word_def AList.delete_conv' AList.update_conv')

lemma fold_words_other:
  "x \<noteq> o_tok \<Longrightarrow>
   map_of (fold (fold_word o_tok) ws c) x = (if x \<in> set ws then None else map_of c x)"
proof (induction ws arbitrary: c)
  case Nil
  show ?case by simp
next
  case (Cons w ws)
  have "map_of (fold_word o_tok w c) x = (if x = w then None else map_of c x)"
    using Cons.prems by (rule map_of_fold_word_other)
  with Cons.IH [OF Cons.prems, of "fold_word o_tok w c"]
  show ?case by auto
qed

text \<open>
  What vocabulary construction leaves on a fresh model, for every corpus and every order of
  the set iteration. A token other than the out-of-vocabulary token is in the vocabulary
  exactly when the counting loop counted it at least \<open>min_freq\<close> times, and it keeps
  that count. When the out-of-vocabulary token is not itself one of the folded tokens
  (the counting loop did not see it, or saw it at least \<open>min_freq\<close> times), it is in the
  vocabulary and its count is the sum of the counts of the removed tokens, zero when there
  are none.
\<close>

theorem vocabulary_folding:
  "(\<forall>w. w \<noteq> Some oov_tok \<longrightarrow>
      map_of (vocab (train_vocab rank (init oov_tok mf n) utts)) w =
        (case map_of (count_utts utts []) w of
           None \<Rightarrow> None
         | Some k \<Rightarrow> if k < mf then None else Some k))
   \<and> ((\<forall>k. map_of (count_utts utts []) (Some oov_tok) = Some k \<longrightarrow> mf \<le> k) \<longrightarrow>
        map_of (vocab (train_vocab rank (init oov_tok mf n) utts)) (Some oov_tok) =
          Some (sum_list (map snd (filter (\<lambda>(w, k). k < mf) (count_utts utts [])))))"
proof (intro conjI allI impI)
  let ?c1 = "count_utts utts []"
  let ?rem = "filter (\<lambda>(w, k). k < mf) ?c1"
  let ?ws = "set_iter rank (map fst ?rem)"
  let ?c2 = "AList.update (Some oov_tok) 0 ?c1"
  let ?v = "vocab (train_vocab rank (init oov_tok mf n) utts)"
  have v: "?v = fold (fold_word (Some oov_tok)) ?ws ?c2"
    by (simp add: train_vocab_def init_def oov_words_def Let_def)
  have d1: "distinct (map fst ?c1)" by (rule distinct_count_utts) simp
  then have dr: "distinct (map fst ?rem)" by (rule distinct_map_filter)
  have dws: "distinct ?ws" and sws: "set ?ws = fst ` set ?rem"
    using set_iter_props [of rank "map fst ?rem"] by simp_all
  {
    fix w assume w: "w \<noteq> Some oov_tok"
    have mem: "(w \<in> set ?ws) = (\<exists>k. map_of ?c1 w = Some k \<and> k < mf)"
      using sws d1 by (force simp: map_of_eq_Some_iff)
    from w have "map_of ?c2 w = map_of ?c1 w" by (simp add: AList.update_conv')
    with fold_words_other [OF w, of ?ws ?c2] mem
    show "map_of ?v w =
        (case map_of ?c1 w of None \<Rightarrow> None | Some k \<Rightarrow> if k < mf then None else Some k)"
      unfolding v by (cases "map_of ?c1 w") auto
  }
  assume h: "\<forall>k. map_of ?c1 (Some oov_tok) = Some k \<longrightarrow> mf \<le> k"
  have onot: "Some oov_tok \<notin> set ?ws"
  proof
    assume "Some oov_tok \<in> set ?ws"
    with sws obtain k where "(Some oov_tok, k) \<in> set ?c1" "k < mf" by auto
    with d1 h show False by (auto simp: map_of_eq_Some_iff)
  qed
  have o2: "map_of ?c2 (Some oov_tok) \<noteq> None" by (simp add: AList.update_conv')
  note char = fold_words_map_of [OF dws onot o2, folded v]
  have "map (counter_get ?c2) ?ws = map (counter_get ?c1) ?ws"
  proof (rule map_cong [OF refl])
    fix y assume "y \<in> set ?ws"
    with onot have "y \<noteq> Some oov_tok" by auto
    then show "counter_get ?c2 y = counter_get ?c1 y" by (rule counter_get_update_other)
  qed
  then have "sum_list (map (counter_get ?c2) ?ws) = sum_list (map (counter_get ?c1) ?ws)"
    by (rule arg_cong)
  also have "\<dots> = sum_list (map (counter_get ?c1) (map fst ?rem))"
    by (rule sum_list_set_iter [OF dr])
  also have "\<dots> = sum_list (map snd ?rem)" by (rule sum_counts_filter [OF d1])
  finally have s: "sum_list (map (counter_get ?c2) ?ws) = sum_list (map snd ?rem)" .
  have g0: "counter_get ?c2 (Some oov_tok) = 0" by (simp add: counter_get_def AList.update_conv')
  show "map_of ?v (Some oov_tok) = Some (sum_list (map snd ?rem))"
    using char [of "Some oov_tok"] s g0 by simp
qed

text \<open>
  On the corpus \<^verbatim>\<open>["the cat sat", "the cat ran", "the dog sat"]\<close> with minimum frequency
  2: \<^verbatim>\<open>cat\<close> is kept with count 2, \<^verbatim>\<open>dog\<close> is removed, the out-of-vocabulary count is 2.
\<close>

theorem vocabulary_folding_witness:
  "map_of (count_utts [''the cat sat'', ''the cat ran'', ''the dog sat''] []) (Some ''__oov__'') = None
   \<and> map_of (vocab (train_vocab insertion_order (init ''__oov__'' 2 2)
          [''the cat sat'', ''the cat ran'', ''the dog sat''])) (Some ''cat'') = Some 2
   \<and> map_of (vocab (train_vocab insertion_order (init ''__oov__'' 2 2)
          [''the cat sat'', ''the cat ran'', ''the dog sat''])) (Some ''dog'') = None
   \<and> map_of (vocab (train_vocab insertion_order (init ''__oov__'' 2 2)
          [''the cat sat'', ''the cat ran'', ''the dog sat''])) (Some ''__oov__'') = Some 2"
proof -
  let ?utts = "[''the cat sat'', ''the cat ran'', ''the dog sat'']"
  let ?v = "vocab (train_vocab insertion_order (init ''__oov__'' 2 2) ?utts)"
  have n: "map_of (count_utts ?utts []) (Some ''__oov__'') = None"
    by (simp add: eval_defs)
  then have h: "\<forall>k. map_of (count_utts ?utts []) (Some ''__oov__'') = Some k \<longrightarrow> 2 \<le> k"
    by simp
  have cc: "map_of (count_utts ?utts []) (Some ''cat'') = Some 2"
    by (simp add: eval_defs)
  have cd: "map_of (count_utts ?utts []) (Some ''dog'') = Some 1"
    by (simp add: eval_defs)
  have s: "sum_list (map snd (filter (\<lambda>(w, k). k < 2) (count_utts ?utts []))) = 2"
    by (simp add: eval_defs)
  note t = vocabulary_folding [of "''__oov__''" insertion_order 2 2 ?utts]
  from t have a: "\<forall>w. w \<noteq> Some ''__oov__'' \<longrightarrow> map_of ?v w =
        (case map_of (count_utts ?utts []) w of None \<Rightarrow> None
         | Some k \<Rightarrow> if k < 2 then None else Some k)"
    by (rule conjunct1)
  from t have "(\<forall>k. map_of (count_utts ?utts []) (Some ''__oov__'') = Some k \<longrightarrow> 2 \<le> k) \<longrightarrow>
      map_of ?v (Some ''__oov__'') =
      Some (sum_list (map snd (filter (\<lambda>(w, k). k < 2) (count_utts ?utts []))))"
    by (rule conjunct2)
  from this [rule_format, OF h [rule_format]] have b: "map_of ?v (Some ''__oov__'') = Some 2"
    by (simp only: s)
  have "Some ''cat'' \<noteq> Some ''__oov__''" by simp
  from a [rule_format, OF this] have c: "map_of ?v (Some ''cat'') = Some 2"
    by (simp only: cc option.case) simp
  have "Some ''dog'' \<noteq> Some ''__oov__''" by simp
  from a [rule_format, OF this] have d: "map_of ?v (Some ''dog'') = None"
    by (simp only: cd option.case) simp
  from n c d b show ?thesis by (intro conjI)
qed


section \<open>The defect of the backoff loop in the range claims\<close>

text \<open>
  C3. On the default model trained on \<^verbatim>\<open>["a a", "a a"]\<close> the query
  \<^verbatim>\<open>prob("a", ("a", "b"))\<close> returns no probability: the context maps to
  \<^verbatim>\<open>("a", "__oov__")\<close>, backs off to \<^verbatim>\<open>("__oov__",)\<close>, which is not a key either, and
  the lookup raises \<^verbatim>\<open>KeyError\<close>. (Every probability that the query does return lies in
  (0, 1], and the unigram fallback is never zero: \<open>prob_in_unit_interval\<close>.)
\<close>

theorem prob_returns_no_probability:
  "(case train insertion_order (init ''__oov__'' 2 3) [''a a'', ''a a''] of
      Inl e \<Rightarrow> False
    | Inr m \<Rightarrow> fst (prob m (Some ''a'') [Some ''a'', Some ''b'']) = Inl KeyError)"
  by (simp add: eval_defs)

text \<open>
  C6. On the same model the utterance \<^verbatim>\<open>b a\<close> has no perplexity: scoring its second
  trigram \<^verbatim>\<open>(None, "b", "a")\<close> raises \<^verbatim>\<open>KeyError\<close>. (Every perplexity that is returned
  is at least 1: \<open>perplexity_at_least_one\<close>.)
\<close>

theorem perplexity_raises_key_error:
  "(case train insertion_order (init ''__oov__'' 2 3) [''a a'', ''a a''] of
      Inl e \<Rightarrow> False
    | Inr m \<Rightarrow> fst (perplexity m ''b a'') = Inl KeyError)"
  by (simp add: eval_defs perplexity_def)

end
